theory Spec2Isabelle
  imports Main
begin

section \<open>Strings and the character database\<close>

text \<open>
  The analyser of \<^verbatim>\<open>transcription_service.py\<close> works on Python \<^verbatim>\<open>str\<close> values: sequences
  of Unicode code points. A string is a list of code points, each a natural number.

  The methods \<^verbatim>\<open>strip\<close>, \<^verbatim>\<open>lower\<close> and \<^verbatim>\<open>capitalize\<close> are decided by Python's character
  database, which is not part of the repository. The database is a parameter of every
  definition below. It gives

  \<^item> the code points that are white space;
  \<^item> the title-case form of a code point, one or more code points long, which
    \<^verbatim>\<open>capitalize\<close> puts in place of the first character;
  \<^item> the lower-case form of a text from a given position on. It is taken in the context
    of the whole text, because the lower-case form of the Greek capital sigma depends on
    its neighbours, and it may be longer than the text it comes from;
  \<^item> the code points that \<^verbatim>\<open>isalpha\<close>, \<^verbatim>\<open>isupper\<close> and \<^verbatim>\<open>islower\<close> accept.

  A theorem stated for every database holds for Python's.
\<close>

type_synonym ustring = "nat list"

record chardb =
  isspace :: "nat \<Rightarrow> bool"
  to_title :: "nat \<Rightarrow> ustring"
  lower_from :: "nat \<Rightarrow> ustring \<Rightarrow> ustring"
  isalpha :: "nat \<Rightarrow> bool"
  isupper :: "nat \<Rightarrow> bool"
  islower :: "nat \<Rightarrow> bool"

text \<open>\<^verbatim>\<open>s.lower()\<close>: the lower-case form of the whole text.\<close>

definition str_lower :: "chardb \<Rightarrow> ustring \<Rightarrow> ustring" where
  "str_lower db s = lower_from db 0 s"

text \<open>
  \<^verbatim>\<open>s.capitalize()\<close>: the title-case form of the first character, then the lower-case
  form of the rest.
\<close>

definition str_capitalize :: "chardb \<Rightarrow> ustring \<Rightarrow> ustring" where
  "str_capitalize db s =
     (case s of
        [] \<Rightarrow> []
      | c # cs \<Rightarrow> to_title db c @ lower_from db 1 s)"

text \<open>The code points of a string literal of the source.\<close>

definition cp :: "string \<Rightarrow> ustring" where
  "cp s = map of_char s"

definition period :: nat where
  "period = of_char (CHR ''.'')"

text \<open>\<^verbatim>\<open>s.strip()\<close>: leading and trailing white space removed.\<close>

definition strip :: "chardb \<Rightarrow> ustring \<Rightarrow> ustring" where
  "strip db s = rev (dropWhile (isspace db) (rev (dropWhile (isspace db) s)))"

text \<open>\<^verbatim>\<open>s.endswith('.')\<close>\<close>

definition endswith_dot :: "ustring \<Rightarrow> bool" where
  "endswith_dot s = (s \<noteq> [] \<and> last s = period)"

text \<open>\<^verbatim>\<open>s.startswith(k)\<close> and the substring test \<^verbatim>\<open>k in s\<close>.\<close>

fun starts_with :: "ustring \<Rightarrow> ustring \<Rightarrow> bool" where
  "starts_with [] s = True"
| "starts_with (k # ks) [] = False"
| "starts_with (k # ks) (c # cs) = (k = c \<and> starts_with ks cs)"

fun str_in :: "ustring \<Rightarrow> ustring \<Rightarrow> bool" where
  "str_in k [] = (k = [])"
| "str_in k (c # cs) = (starts_with k (c # cs) \<or> str_in k cs)"

text \<open>
  The delimiter classes of the two regular expressions, \<^verbatim>\<open>[.!?]+\<close> and \<^verbatim>\<open>[.!?;]+\<close>.
\<close>

definition is_delim :: "nat \<Rightarrow> bool" where
  "is_delim c = (c \<in> set (cp ''.!?''))"

definition is_delim_semi :: "nat \<Rightarrow> bool" where
  "is_delim_semi c = (c \<in> set (cp ''.!?;''))"

text \<open>
  \<^verbatim>\<open>re.split\<close> on a pattern \<^verbatim>\<open>[...]+\<close>: the text is cut at every maximal run of
  delimiter characters. The pieces between the runs are returned in order, the empty
  piece before a leading run and after a trailing run included, so the result is never
  the empty list.
\<close>

function re_split :: "(nat \<Rightarrow> bool) \<Rightarrow> ustring \<Rightarrow> ustring list" where
  "re_split d [] = [ [] ]"
| "re_split d (c # cs) =
     (if d c then [] # re_split d (dropWhile d cs)
      else (case re_split d cs of
              [] \<Rightarrow> [ [c] ]
            | f # fs \<Rightarrow> (c # f) # fs))"
  by pat_completeness auto
termination
  by (relation "measure (\<lambda>(d, s). length s)")
     (auto intro: le_imp_less_Suc length_dropWhile_le)

text \<open>Python indexing \<^verbatim>\<open>xs[i]\<close>: a negative index counts from the end, and an index
  out of range raises.\<close>

datatype error = IndexError

definition py_index :: "'a list \<Rightarrow> int \<Rightarrow> error + 'a" where
  "py_index xs i =
     (let k = (if i < 0 then i + int (length xs) else i)
      in if k < 0 \<or> int (length xs) \<le> k then Inl IndexError
         else Inr (xs ! nat k))"

section \<open>The fallback summariser\<close>

text \<open>
  The sentence list of \<^verbatim>\<open>create_simple_summary\<close>:
  \<^verbatim>\<open>[s.strip() for s in re.split(r'[.!?]+', text) if s.strip()]\<close>.
\<close>

definition sentences_of :: "chardb \<Rightarrow> ustring \<Rightarrow> ustring list" where
  "sentences_of db t =
     map (strip db) (filter (\<lambda>s. strip db s \<noteq> []) (re_split is_delim t))"

definition create_simple_summary :: "chardb \<Rightarrow> ustring \<Rightarrow> error + ustring" where
  "create_simple_summary db transcript_text =
     (if transcript_text = [] \<or> length (strip db transcript_text) < 10
      then Inr (cp ''Short audio clip with minimal content.'')
      else
        let sentences = sentences_of db transcript_text in
        if length sentences \<le> 2
        then Inr (cp ''Brief audio containing: '' @ take 100 transcript_text @ cp ''...'')
        else
          case py_index sentences 0 of
            Inl e \<Rightarrow> Inl e
          | Inr first_part \<Rightarrow>
              (case (if length sentences > 1 then py_index sentences (- 1) else Inr [])
               of
                 Inl e \<Rightarrow> Inl e
               | Inr last_part \<Rightarrow>
                   let summary = cp ''The audio discusses '' @ str_lower db first_part;
                       summary = (if last_part \<noteq> []
                                  then summary @ cp '' and concludes with ''
                                         @ str_lower db last_part
                                  else summary)
                   in Inr (summary @ cp ''.'')))"

section \<open>The action item extractor\<close>

definition action_keywords :: "ustring list" where
  "action_keywords =
     map cp
       [''need to'', ''should'', ''must'', ''have to'', ''will'',
        ''action'', ''todo'', ''to do'', ''follow up'', ''next step'',
        ''assign'', ''responsible'', ''deadline'', ''schedule'',
        ''contact'', ''email'', ''call'', ''meeting'', ''send'',
        ''remember'', ''don't forget'', ''make sure'']"

text \<open>
  The clean-up applied to every kept sentence: \<^verbatim>\<open>capitalize\<close>, then a period is
  appended unless the text already ends with one.
\<close>

definition clean_sentence :: "chardb \<Rightarrow> ustring \<Rightarrow> ustring" where
  "clean_sentence db s =
     (let c = str_capitalize db s in if \<not> endswith_dot c then c @ cp ''.'' else c)"

text \<open>The loop over the split pieces; the second argument is \<^verbatim>\<open>action_items\<close>.\<close>

fun action_loop :: "chardb \<Rightarrow> ustring list \<Rightarrow> ustring list \<Rightarrow> ustring list" where
  "action_loop db action_items [] = action_items"
| "action_loop db action_items (s # ss) =
     (let sentence = strip db s in
      if length sentence < 5 then action_loop db action_items ss
      else if list_ex (\<lambda>keyword. str_in keyword (str_lower db sentence)) action_keywords
           then action_loop db (action_items @ [clean_sentence db sentence]) ss
           else action_loop db action_items ss)"

definition keyword_scan :: "chardb \<Rightarrow> ustring \<Rightarrow> ustring list" where
  "keyword_scan db transcript_text =
     action_loop db [] (re_split is_delim transcript_text)"

definition extract_action_items :: "chardb \<Rightarrow> ustring \<Rightarrow> ustring list" where
  "extract_action_items db transcript_text =
     (if transcript_text = [] then []
      else
        let action_items = keyword_scan db transcript_text;
            action_items =
              (if action_items = [] \<and> transcript_text \<noteq> []
               then (if str_in (cp ''meeting'') (str_lower db transcript_text)
                     then action_items @ [cp ''Follow up on meeting discussion.'']
                     else if str_in (cp ''call'') (str_lower db transcript_text)
                     then action_items @ [cp ''Review call notes and next steps.'']
                     else action_items
                            @ [cp ''Review recording content for further action.''])
               else action_items)
        in take 5 action_items)"

section \<open>The key point extractor\<close>

text \<open>The loop over the pieces of the summary; the second argument is \<^verbatim>\<open>points\<close>.\<close>

fun summary_loop :: "chardb \<Rightarrow> ustring list \<Rightarrow> ustring list \<Rightarrow> ustring list" where
  "summary_loop db points [] = points"
| "summary_loop db points (p # ps) =
     (let point = strip db p in
      if length point > 15 then summary_loop db (points @ [clean_sentence db point]) ps
      else summary_loop db points ps)"

text \<open>The loop over the first three pieces of the transcript.\<close>

fun transcript_loop :: "chardb \<Rightarrow> ustring list \<Rightarrow> ustring list \<Rightarrow> ustring list" where
  "transcript_loop db points [] = points"
| "transcript_loop db points (s # ss) =
     (let sentence = strip db s in
      if length sentence > 20
      then transcript_loop db (points @ [clean_sentence db sentence]) ss
      else transcript_loop db points ss)"

text \<open>The loop that removes duplicates, with its set \<^verbatim>\<open>seen\<close> and its list
  \<^verbatim>\<open>unique_points\<close>.\<close>

fun unique_loop ::
  "chardb \<Rightarrow> ustring set \<Rightarrow> ustring list \<Rightarrow> ustring list \<Rightarrow> ustring list" where
  "unique_loop db seen unique_points [] = unique_points"
| "unique_loop db seen unique_points (point # ps) =
     (if str_lower db point \<notin> seen
      then unique_loop db (insert (str_lower db point) seen) (unique_points @ [point]) ps
      else unique_loop db seen unique_points ps)"

text \<open>The points gathered from the summary alone.\<close>

definition summary_points :: "chardb \<Rightarrow> ustring \<Rightarrow> ustring list" where
  "summary_points db summary =
     (if summary \<noteq> [] then summary_loop db [] (re_split is_delim_semi summary) else [])"

text \<open>The points gathered before duplicates are removed.\<close>

definition gathered_points :: "chardb \<Rightarrow> ustring \<Rightarrow> ustring \<Rightarrow> ustring list" where
  "gathered_points db summary transcript =
     (let points = summary_points db summary in
      if length points < 3 \<and> transcript \<noteq> []
      then transcript_loop db points (take 3 (re_split is_delim transcript))
      else points)"

definition extract_key_points :: "chardb \<Rightarrow> ustring \<Rightarrow> ustring \<Rightarrow> ustring list" where
  "extract_key_points db summary transcript =
     take 5 (unique_loop db {} [] (gathered_points db summary transcript))"

text \<open>
  The trimmed pieces the loops look at: those of the transcript, cut at \<open>.\<close>,
  \<open>!\<close> and \<open>?\<close>, and those of the summary, cut at \<open>;\<close> as well.
\<close>

definition transcript_pieces :: "chardb \<Rightarrow> ustring \<Rightarrow> ustring list" where
  "transcript_pieces db transcript = map (strip db) (re_split is_delim transcript)"

definition summary_pieces :: "chardb \<Rightarrow> ustring \<Rightarrow> ustring list" where
  "summary_pieces db summary = map (strip db) (re_split is_delim_semi summary)"

text \<open>The three fixed items that \<^const>\<open>extract_action_items\<close> can fall back to.\<close>

definition fixed_items :: "ustring list" where
  "fixed_items = map cp [''Follow up on meeting discussion.'',
                         ''Review call notes and next steps.'',
                         ''Review recording content for further action.'']"

section \<open>Removing duplicates, as the specification words it\<close>

text \<open>
  The specification asks for the points with case-insensitive duplicates removed, the
  first occurrence kept, the order preserved. Two points are equal up to case when
  \<^verbatim>\<open>str.lower\<close> gives the same text for both. Written directly: the first point stays,
  every later point that equals it up to case is dropped, and the same is done with what
  remains. This definition follows the specification; \<^const>\<open>unique_loop\<close> is the code.
\<close>

fun spec_dedup_keep_first :: "chardb \<Rightarrow> ustring list \<Rightarrow> ustring list" where
  "spec_dedup_keep_first db [] = []"
| "spec_dedup_keep_first db (p # ps) =
     p # spec_dedup_keep_first db (filter (\<lambda>q. str_lower db q \<noteq> str_lower db p) ps)"

section \<open>An excerpt of Python's character database\<close>

text \<open>
  The concrete inputs below are evaluated with an excerpt of Python's character
  database. Its white space is Python's complete list. Its case mapping and its letter
  classes are Python's on the code points below 128, on U+0149 (a lower-case letter
  whose title-case form is the two code points U+02BC and U+004E) and on U+02BC (a
  modifier letter without case). Every other code point is left as it is and belongs
  to no class. The excerpt is used only at inputs made of the code points it covers.
\<close>

definition excerpt_isspace :: "nat \<Rightarrow> bool" where
  "excerpt_isspace c =
     ((0x09 \<le> c \<and> c \<le> 0x0D) \<or> (0x1C \<le> c \<and> c \<le> 0x20) \<or> c = 0x85 \<or> c = 0xA0
      \<or> c = 0x1680 \<or> (0x2000 \<le> c \<and> c \<le> 0x200A) \<or> c = 0x2028 \<or> c = 0x2029
      \<or> c = 0x202F \<or> c = 0x205F \<or> c = 0x3000)"

definition excerpt_lower_cp :: "nat \<Rightarrow> nat" where
  "excerpt_lower_cp c = (if 0x41 \<le> c \<and> c \<le> 0x5A then c + 0x20 else c)"

definition excerpt_title_cp :: "nat \<Rightarrow> ustring" where
  "excerpt_title_cp c =
     (if 0x61 \<le> c \<and> c \<le> 0x7A then [c - 0x20]
      else if c = 0x149 then [0x2BC, 0x4E]
      else [c])"

definition excerpt_isupper :: "nat \<Rightarrow> bool" where
  "excerpt_isupper c = (0x41 \<le> c \<and> c \<le> 0x5A)"

definition excerpt_islower :: "nat \<Rightarrow> bool" where
  "excerpt_islower c = ((0x61 \<le> c \<and> c \<le> 0x7A) \<or> c = 0x149)"

definition excerpt_isalpha :: "nat \<Rightarrow> bool" where
  "excerpt_isalpha c = (excerpt_isupper c \<or> excerpt_islower c \<or> c = 0x2BC)"

definition py_excerpt :: chardb where
  "py_excerpt =
     \<lparr> isspace = excerpt_isspace,
       to_title = excerpt_title_cp,
       lower_from = (\<lambda>i s. map excerpt_lower_cp (drop i s)),
       isalpha = excerpt_isalpha,
       isupper = excerpt_isupper,
       islower = excerpt_islower \<rparr>"

section \<open>Facts about the primitives\<close>

lemmas excerpt_defs =
  py_excerpt_def excerpt_isspace_def excerpt_lower_cp_def excerpt_title_cp_def
  excerpt_isupper_def excerpt_islower_def excerpt_isalpha_def

lemmas eval_defs =
  excerpt_defs cp_def period_def strip_def str_lower_def str_capitalize_def endswith_dot_def
  is_delim_def is_delim_semi_def py_index_def sentences_of_def create_simple_summary_def
  action_keywords_def clean_sentence_def keyword_scan_def extract_action_items_def
  summary_points_def gathered_points_def extract_key_points_def fixed_items_def Let_def

lemma cp_period: "cp ''.'' = [period]"
  by (simp add: cp_def period_def)

lemma action_loop_closed:
  "action_loop db acc ss =
     acc @ map (clean_sentence db)
             (filter (\<lambda>x. \<not> length x < 5 \<and>
                           list_ex (\<lambda>keyword. str_in keyword (str_lower db x)) action_keywords)
                (map (strip db) ss))"
  by (induction ss arbitrary: acc) (simp_all add: Let_def)

lemma summary_loop_closed:
  "summary_loop db acc ps =
     acc @ map (clean_sentence db) (filter (\<lambda>x. length x > 15) (map (strip db) ps))"
  by (induction ps arbitrary: acc) (simp_all add: Let_def)

lemma transcript_loop_closed:
  "transcript_loop db acc ss =
     acc @ map (clean_sentence db) (filter (\<lambda>x. length x > 20) (map (strip db) ss))"
  by (induction ss arbitrary: acc) (simp_all add: Let_def)

lemma clean_sentence_nonempty: "clean_sentence db s \<noteq> []"
  by (simp add: clean_sentence_def Let_def endswith_dot_def cp_period)

lemma clean_sentence_last: "last (clean_sentence db s) = period"
  by (simp add: clean_sentence_def Let_def endswith_dot_def cp_period)

lemma clean_sentence_cases:
  "clean_sentence db s = str_capitalize db s
   \<or> clean_sentence db s = str_capitalize db s @ cp ''.''"
  by (simp add: clean_sentence_def Let_def)

lemma str_capitalize_nonempty:
  "s \<noteq> [] \<Longrightarrow> str_capitalize db s = to_title db (hd s) @ lower_from db 1 s"
  by (cases s) (simp_all add: str_capitalize_def)

lemma starts_with_append: "starts_with k (k @ r)"
  by (induction k) simp_all

lemma re_split_nonempty: "re_split d s \<noteq> []"
  by (induction d s rule: re_split.induct) (auto split: list.splits)

lemma re_split_no_delim_all: "\<forall>f \<in> set (re_split d s). \<forall>c \<in> set f. \<not> d c"
proof (induction d s rule: re_split.induct)
  case (1 d)
  show ?case by simp
next
  case (2 d c cs)
  show ?case
  proof (cases "d c")
    case True
    with 2 show ?thesis by simp
  next
    case False
    obtain f fs where fs: "re_split d cs = f # fs"
      using re_split_nonempty [of d cs] by (cases "re_split d cs") auto
    with 2 False show ?thesis by auto
  qed
qed

lemma re_split_no_delim: "f \<in> set (re_split d s) \<Longrightarrow> c \<in> set f \<Longrightarrow> \<not> d c"
  using re_split_no_delim_all by blast

lemma set_strip: "set (strip db s) \<subseteq> set s"
proof -
  have "set (strip db s) = set (dropWhile (isspace db) (rev (dropWhile (isspace db) s)))"
    by (simp add: strip_def)
  also have "\<dots> \<subseteq> set (rev (dropWhile (isspace db) s))"
    by (meson set_dropWhileD subsetI)
  also have "\<dots> \<subseteq> set s"
    using set_dropWhileD by fastforce
  finally show ?thesis .
qed

lemma py_index_first: "xs \<noteq> [] \<Longrightarrow> py_index xs 0 = Inr (hd xs)"
  by (cases xs) (simp_all add: py_index_def)

lemma py_index_last: "xs \<noteq> [] \<Longrightarrow> py_index xs (- 1) = Inr (last xs)"
  by (simp add: py_index_def Let_def last_conv_nth nat_diff_distrib')

lemma unique_loop_closed:
  "unique_loop db seen acc ps =
     acc @ spec_dedup_keep_first db (filter (\<lambda>q. str_lower db q \<notin> seen) ps)"
proof (induction ps arbitrary: seen acc)
  case Nil
  show ?case by simp
next
  case (Cons p ps)
  have combine: "(\<lambda>q. str_lower db q \<noteq> str_lower db p \<and> str_lower db q \<notin> seen)
                 = (\<lambda>q. str_lower db q \<notin> seen \<and> str_lower db q \<noteq> str_lower db p)"
    by auto
  show ?case
  proof (cases "str_lower db p \<in> seen")
    case True
    then show ?thesis by (simp add: Cons.IH)
  next
    case False
    then show ?thesis by (simp add: Cons.IH combine)
  qed
qed

lemma set_spec_dedup: "set (spec_dedup_keep_first db ps) \<subseteq> set ps"
  by (induction db ps rule: spec_dedup_keep_first.induct) auto


text \<open>Where the extracted items come from.\<close>

lemma in_cleaned_filter:
  assumes "x \<in> set (map (clean_sentence db) (filter (\<lambda>y. n < length y) ys))"
  shows "\<exists>y \<in> set ys. y \<noteq> [] \<and> x = clean_sentence db y"
proof -
  from assms obtain y where "y \<in> set ys" and "n < length y" and "x = clean_sentence db y"
    by auto
  then have "y \<in> set ys \<and> y \<noteq> [] \<and> x = clean_sentence db y" by auto
  then show ?thesis by blast
qed

lemma in_keyword_scan:
  assumes "x \<in> set (keyword_scan db t)"
  shows "\<exists>y \<in> set (transcript_pieces db t). y \<noteq> [] \<and> x = clean_sentence db y"
proof -
  from assms obtain y where "y \<in> set (map (strip db) (re_split is_delim t))"
    and "\<not> length y < 5" and "x = clean_sentence db y"
    by (auto simp add: keyword_scan_def action_loop_closed)
  then have "y \<in> set (transcript_pieces db t) \<and> y \<noteq> [] \<and> x = clean_sentence db y"
    by (auto simp add: transcript_pieces_def)
  then show ?thesis by blast
qed

lemma in_summary_points:
  assumes "x \<in> set (summary_points db s)"
  shows "\<exists>y \<in> set (summary_pieces db s). y \<noteq> [] \<and> x = clean_sentence db y"
proof (cases "s = []")
  case True
  with assms show ?thesis by (simp add: summary_points_def)
next
  case False
  with assms have "x \<in> set (map (clean_sentence db)
      (filter (\<lambda>y. 15 < length y) (summary_pieces db s)))"
    by (simp add: summary_points_def summary_loop_closed summary_pieces_def)
  then show ?thesis by (rule in_cleaned_filter)
qed

lemma gathered_points_closed:
  "gathered_points db s t =
     (if length (summary_points db s) < 3 \<and> t \<noteq> []
      then summary_points db s @
           map (clean_sentence db)
             (filter (\<lambda>y. 20 < length y) (map (strip db) (take 3 (re_split is_delim t))))
      else summary_points db s)"
  by (simp add: gathered_points_def transcript_loop_closed Let_def)

lemma first_three_pieces:
  "set (map (strip db) (take 3 (re_split is_delim t))) \<subseteq> set (transcript_pieces db t)"
  by (auto simp add: transcript_pieces_def dest: in_set_takeD)

lemma in_gathered_points:
  assumes "x \<in> set (gathered_points db s t)"
  shows "\<exists>y \<in> set (summary_pieces db s) \<union> set (transcript_pieces db t).
           y \<noteq> [] \<and> x = clean_sentence db y"
proof -
  from assms consider (summary) "x \<in> set (summary_points db s)"
    | (transcript) "x \<in> set (map (clean_sentence db)
            (filter (\<lambda>y. 20 < length y) (map (strip db) (take 3 (re_split is_delim t)))))"
    by (auto simp add: gathered_points_closed split: if_splits)
  then show ?thesis
  proof cases
    case summary
    then show ?thesis using in_summary_points by blast
  next
    case transcript
    then obtain y where "y \<in> set (map (strip db) (take 3 (re_split is_delim t)))"
      and "y \<noteq> [] \<and> x = clean_sentence db y"
      using in_cleaned_filter by blast
    then show ?thesis using first_three_pieces by blast
  qed
qed

lemma in_key_points:
  "x \<in> set (extract_key_points db s t) \<Longrightarrow> x \<in> set (gathered_points db s t)"
proof -
  assume "x \<in> set (extract_key_points db s t)"
  then have "x \<in> set (spec_dedup_keep_first db (gathered_points db s t))"
    by (auto simp add: extract_key_points_def unique_loop_closed dest: in_set_takeD)
  then show ?thesis using set_spec_dedup by blast
qed

lemma in_action_items:
  "x \<in> set (extract_action_items db t) \<Longrightarrow>
     x \<in> set (keyword_scan db t) \<or> x \<in> set fixed_items"
  by (auto simp add: extract_action_items_def fixed_items_def Let_def
        split: if_splits dest: in_set_takeD)

lemma fixed_items_format: "\<forall>x \<in> set fixed_items. x \<noteq> [] \<and> last x = period"
  by (simp add: fixed_items_def cp_def period_def)

lemma clean_sentence_shape:
  assumes "y \<noteq> []"
  shows "clean_sentence db y = to_title db (hd y) @ lower_from db 1 y
         \<or> clean_sentence db y = to_title db (hd y) @ lower_from db 1 y @ cp ''.''"
  using clean_sentence_cases [of db y] str_capitalize_nonempty [OF assms, of db] by auto

lemma clean_sentence_start:
  assumes "y \<noteq> []"
  shows "starts_with (to_title db (hd y)) (clean_sentence db y)"
  using clean_sentence_shape [OF assms, of db] starts_with_append by auto

lemma sentences_of_elem:
  assumes "x \<in> set (sentences_of db t)"
  shows "x \<noteq> [] \<and> (\<forall>c \<in> set x. \<not> is_delim c)"
proof -
  from assms obtain f where f: "f \<in> set (re_split is_delim t)"
    and x: "x = strip db f" and ne: "strip db f \<noteq> []"
    by (auto simp add: sentences_of_def)
  have "\<forall>c \<in> set (strip db f). \<not> is_delim c"
    using re_split_no_delim [OF f] set_strip [of db f] by blast
  with x ne show ?thesis by simp
qed

section \<open>Bounds, totality and the short transcript\<close>

text \<open>
  Claim C6. For every transcript and every summary, the list of action items and the
  list of key points have at most five elements each, however many sentences matched.
\<close>

theorem output_lists_capped:
  "length (extract_action_items db transcript_text) \<le> 5
   \<and> length (extract_key_points db summary transcript) \<le> 5"
  by (simp add: extract_action_items_def extract_key_points_def Let_def)

text \<open>
  Claim C9. A transcript whose trimmed length is below 10 characters is summarised by the
  fixed text \<open>Short audio clip with minimal content.\<close>
\<close>

theorem short_transcript_summary:
  "length (strip db transcript_text) < 10 \<Longrightarrow>
   create_simple_summary db transcript_text
     = Inr (cp ''Short audio clip with minimal content.'')"
  by (simp add: create_simple_summary_def)

theorem short_transcript_summary_witness:
  "length (strip py_excerpt ([0xA0, 0xA0, 0xA0] @ cp ''Hi there.'' @ [0xA0, 0xA0])) < 10
   \<and> create_simple_summary py_excerpt ([0xA0, 0xA0, 0xA0] @ cp ''Hi there.'' @ [0xA0, 0xA0])
     = Inr (cp ''Short audio clip with minimal content.'')"
proof -
  have h: "length (strip py_excerpt ([0xA0, 0xA0, 0xA0] @ cp ''Hi there.'' @ [0xA0, 0xA0]))
           < 10"
    by (simp add: eval_defs)
  from h short_transcript_summary [OF h] show ?thesis by (rule conjI)
qed

text \<open>
  Claim C7. The three operations return a value on every string. The summariser is the
  only one that indexes a list, and its two index operations never leave the range, so
  its result is never an error; the two extractors use no operation that can raise, and
  their models are total functions into lists. On the empty summary and the empty
  transcript the results are the fixed short summary, no action item and no key point.
\<close>

theorem analyser_total:
  "(\<exists>r. create_simple_summary db transcript_text = Inr r)
   \<and> create_simple_summary db [] = Inr (cp ''Short audio clip with minimal content.'')
   \<and> extract_action_items db [] = []
   \<and> extract_key_points db [] [] = []"
proof -
  have total: "\<exists>r. create_simple_summary db transcript_text = Inr r"
  proof (cases "length (sentences_of db transcript_text) \<le> 2")
    case True
    then show ?thesis by (simp add: create_simple_summary_def Let_def)
  next
    case False
    then have ne: "sentences_of db transcript_text \<noteq> []" by auto
    from False show ?thesis
      by (simp add: create_simple_summary_def Let_def py_index_first [OF ne]
            py_index_last [OF ne])
  qed
  have empty_summary:
    "create_simple_summary db [] = Inr (cp ''Short audio clip with minimal content.'')"
    by (simp add: create_simple_summary_def)
  have empty_items: "extract_action_items db [] = []"
    by (simp add: extract_action_items_def)
  have empty_points: "extract_key_points db [] [] = []"
    by (simp add: extract_key_points_def gathered_points_def summary_points_def)
  from total empty_summary empty_items empty_points show ?thesis by simp
qed

text \<open>
  Claim C8. The transcript is only a fallback source of key points: when the summary alone
  yields three or more points, any two transcripts give the same key points.
\<close>

theorem transcript_only_fallback:
  "3 \<le> length (summary_points db summary) \<Longrightarrow>
   extract_key_points db summary t1 = extract_key_points db summary t2"
  by (simp add: extract_key_points_def gathered_points_def Let_def)

theorem transcript_only_fallback_witness:
  "3 \<le> length (summary_points py_excerpt
            (cp ''The budget was approved; The launch moved to June; Hiring starts in May''))
   \<and> extract_key_points py_excerpt
        (cp ''The budget was approved; The launch moved to June; Hiring starts in May'')
        (cp ''A completely different transcript text. With two long sentences in it.'')
     = extract_key_points py_excerpt
        (cp ''The budget was approved; The launch moved to June; Hiring starts in May'') []"
proof -
  have h: "3 \<le> length (summary_points py_excerpt
             (cp ''The budget was approved; The launch moved to June; Hiring starts in May''))"
    by (simp add: eval_defs summary_loop_closed)
  from h transcript_only_fallback [OF h] show ?thesis by (rule conjI)
qed

section \<open>The format of the extracted items\<close>

text \<open>
  Claim C2, as stated: every action item and every key point starts with an upper-case
  character and ends with a period. The period holds; the upper-case start does not,
  because \<^verbatim>\<open>capitalize\<close> leaves a first character that has no title-case form as it
  is. The transcript \<open>3 people will call back\<close> gives the one action item
  \<open>3 people will call back.\<close>, whose first character is a digit.
\<close>

theorem item_starts_upper_counterexample:
  "extract_action_items py_excerpt (cp ''3 people will call back'')
     = [cp ''3 people will call back.'']
   \<and> \<not> isupper py_excerpt
         (hd (hd (extract_action_items py_excerpt (cp ''3 people will call back''))))"
proof -
  have e: "extract_action_items py_excerpt (cp ''3 people will call back'')
           = [cp ''3 people will call back.'']"
    by (simp add: eval_defs action_loop_closed)
  have "\<not> isupper py_excerpt (hd (cp ''3 people will call back.''))"
    by (simp add: excerpt_defs cp_def)
  with e show ?thesis by simp
qed

text \<open>
  Claim C2, amended: every action item and every key point is non-empty and ends with a
  period. Unless it is one of the three fixed items, it starts with the title-case form
  of the first character of a trimmed piece of the text it was taken from: an upper-case
  letter where that character has one, and the character itself where it has none, as
  for a digit.
\<close>

theorem output_item_format:
  "(\<forall>x \<in> set (extract_action_items db transcript_text).
      x \<noteq> [] \<and> last x = period
      \<and> (x \<in> set fixed_items
         \<or> (\<exists>y \<in> set (transcript_pieces db transcript_text).
               y \<noteq> [] \<and> starts_with (to_title db (hd y)) x)))
   \<and> (\<forall>x \<in> set (extract_key_points db summary transcript).
      x \<noteq> [] \<and> last x = period
      \<and> (\<exists>y \<in> set (summary_pieces db summary) \<union> set (transcript_pieces db transcript).
            y \<noteq> [] \<and> starts_with (to_title db (hd y)) x))"
proof (rule conjI; rule ballI)
  fix x assume "x \<in> set (extract_action_items db transcript_text)"
  then consider (scan) "x \<in> set (keyword_scan db transcript_text)"
    | (fixed) "x \<in> set fixed_items"
    using in_action_items by blast
  then show "x \<noteq> [] \<and> last x = period
      \<and> (x \<in> set fixed_items
         \<or> (\<exists>y \<in> set (transcript_pieces db transcript_text).
               y \<noteq> [] \<and> starts_with (to_title db (hd y)) x))"
  proof cases
    case scan
    then obtain y where y: "y \<in> set (transcript_pieces db transcript_text)" "y \<noteq> []"
      and x: "x = clean_sentence db y"
      using in_keyword_scan by blast
    from y(2) have "starts_with (to_title db (hd y)) x"
      unfolding x by (rule clean_sentence_start)
    with y have "\<exists>y \<in> set (transcript_pieces db transcript_text).
        y \<noteq> [] \<and> starts_with (to_title db (hd y)) x"
      by blast
    then show ?thesis by (simp add: x clean_sentence_nonempty clean_sentence_last)
  next
    case fixed
    then show ?thesis using fixed_items_format by blast
  qed
next
  fix x assume "x \<in> set (extract_key_points db summary transcript)"
  then have "x \<in> set (gathered_points db summary transcript)" by (rule in_key_points)
  then obtain y where y: "y \<in> set (summary_pieces db summary) \<union> set (transcript_pieces db transcript)"
      "y \<noteq> []"
    and x: "x = clean_sentence db y"
    using in_gathered_points by blast
  from y(2) have "starts_with (to_title db (hd y)) x"
    unfolding x by (rule clean_sentence_start)
  with y have "\<exists>y \<in> set (summary_pieces db summary) \<union> set (transcript_pieces db transcript).
      y \<noteq> [] \<and> starts_with (to_title db (hd y)) x"
    by blast
  then show "x \<noteq> [] \<and> last x = period
      \<and> (\<exists>y \<in> set (summary_pieces db summary) \<union> set (transcript_pieces db transcript).
            y \<noteq> [] \<and> starts_with (to_title db (hd y)) x)"
    by (simp add: x clean_sentence_nonempty clean_sentence_last)
qed

theorem output_item_format_witness:
  "cp ''I need to call john tomorrow.''
     \<in> set (extract_action_items py_excerpt
              (cp ''I need to call John tomorrow. The weather is nice.''))
   \<and> cp ''The weather is nice today.''
     \<in> set (extract_key_points py_excerpt (cp ''the weather is nice today'') [])
   \<and> last (cp ''I need to call john tomorrow.'') = period
   \<and> last (cp ''The weather is nice today.'') = period
   \<and> cp ''the weather is nice today''
     \<in> set (summary_pieces py_excerpt (cp ''the weather is nice today''))
   \<and> to_title py_excerpt (hd (cp ''the weather is nice today'')) = cp ''T''
   \<and> starts_with (cp ''T'') (cp ''The weather is nice today.'')"
proof -
  have a: "extract_action_items py_excerpt
             (cp ''I need to call John tomorrow. The weather is nice.'')
           = [cp ''I need to call john tomorrow.'']"
    by (simp add: eval_defs action_loop_closed)
  have k: "extract_key_points py_excerpt (cp ''the weather is nice today'') []
           = [cp ''The weather is nice today.'']"
    by (simp add: eval_defs summary_loop_closed)
  have p: "summary_pieces py_excerpt (cp ''the weather is nice today'')
           = [cp ''the weather is nice today'']"
    by (simp add: eval_defs summary_pieces_def)
  have t: "to_title py_excerpt (hd (cp ''the weather is nice today'')) = cp ''T''"
    by (simp add: excerpt_defs cp_def)
  have s: "starts_with (cp ''T'') (cp ''The weather is nice today.'')"
    by (simp add: cp_def)
  from output_item_format
         [of py_excerpt "cp ''I need to call John tomorrow. The weather is nice.''"
             "cp ''the weather is nice today''" "[]"]
  have "last (cp ''I need to call john tomorrow.'') = period
        \<and> last (cp ''The weather is nice today.'') = period"
    unfolding a k by simp
  with a k p t s show ?thesis by simp
qed

text \<open>
  Claim C10, as stated: every letter after the first character of a keyword-matched action
  item or of a key point is lower case. The title-case form of the first character can
  be longer than one code point and can bring an upper-case letter into second place:
  U+0149 becomes U+02BC followed by \<open>N\<close>. The transcript made of U+0149 and
  \<open> will call back\<close> matches the keywords \<open>will\<close> and \<open>call\<close>, and its item has the
  upper-case \<open>N\<close> as its second character.
\<close>

theorem rest_lower_case_counterexample:
  "extract_action_items py_excerpt (0x149 # cp '' will call back'')
     = [ [0x2BC] @ cp ''N will call back.'' ]
   \<and> tl ([0x2BC] @ cp ''N will call back.'') ! 0 = of_char (CHR ''N'')
   \<and> isalpha py_excerpt (of_char (CHR ''N''))
   \<and> \<not> islower py_excerpt (of_char (CHR ''N''))"
  by (simp add: eval_defs action_loop_closed)

text \<open>
  Claim C10, amended: every keyword-matched action item and every key point is the
  title-case form of the first character of a trimmed piece of the text, followed by the
  lower-case form of the rest of that piece, followed by a period if there was none. So
  every letter of the piece after its first character is emitted in its lower-case form,
  \<open>John\<close> as \<open>john\<close>; letters that come from the title-case form of the first character,
  and letters without case, are not made lower case.
\<close>

theorem rest_is_lower_case:
  "(\<forall>x \<in> set (extract_action_items db transcript_text).
      x \<in> set fixed_items
      \<or> (\<exists>y \<in> set (transcript_pieces db transcript_text).
            y \<noteq> []
            \<and> (x = to_title db (hd y) @ lower_from db 1 y
               \<or> x = to_title db (hd y) @ lower_from db 1 y @ cp ''.'')))
   \<and> (\<forall>x \<in> set (extract_key_points db summary transcript).
      \<exists>y \<in> set (summary_pieces db summary) \<union> set (transcript_pieces db transcript).
        y \<noteq> []
        \<and> (x = to_title db (hd y) @ lower_from db 1 y
           \<or> x = to_title db (hd y) @ lower_from db 1 y @ cp ''.''))"
proof (rule conjI; rule ballI)
  fix x assume "x \<in> set (extract_action_items db transcript_text)"
  then consider (scan) "x \<in> set (keyword_scan db transcript_text)"
    | (fixed) "x \<in> set fixed_items"
    using in_action_items by blast
  then show "x \<in> set fixed_items
      \<or> (\<exists>y \<in> set (transcript_pieces db transcript_text).
            y \<noteq> []
            \<and> (x = to_title db (hd y) @ lower_from db 1 y
               \<or> x = to_title db (hd y) @ lower_from db 1 y @ cp ''.''))"
  proof cases
    case scan
    then obtain y where y: "y \<in> set (transcript_pieces db transcript_text)" "y \<noteq> []"
      and x: "x = clean_sentence db y"
      using in_keyword_scan by blast
    from y(2) have "x = to_title db (hd y) @ lower_from db 1 y
        \<or> x = to_title db (hd y) @ lower_from db 1 y @ cp ''.''"
      unfolding x by (rule clean_sentence_shape)
    with y show ?thesis by blast
  next
    case fixed
    then show ?thesis by simp
  qed
next
  fix x assume "x \<in> set (extract_key_points db summary transcript)"
  then have "x \<in> set (gathered_points db summary transcript)" by (rule in_key_points)
  then obtain y where y: "y \<in> set (summary_pieces db summary) \<union> set (transcript_pieces db transcript)"
      "y \<noteq> []"
    and x: "x = clean_sentence db y"
    using in_gathered_points by blast
  from y(2) have "x = to_title db (hd y) @ lower_from db 1 y
      \<or> x = to_title db (hd y) @ lower_from db 1 y @ cp ''.''"
    unfolding x by (rule clean_sentence_shape)
  with y show "\<exists>y \<in> set (summary_pieces db summary) \<union> set (transcript_pieces db transcript).
      y \<noteq> []
      \<and> (x = to_title db (hd y) @ lower_from db 1 y
         \<or> x = to_title db (hd y) @ lower_from db 1 y @ cp ''.'')"
    by blast
qed

theorem rest_is_lower_case_witness:
  "cp ''I need to call john tomorrow.''
     \<in> set (extract_action_items py_excerpt
              (cp ''I need to call John tomorrow. The weather is nice.''))
   \<and> cp ''I need to call john tomorrow.'' \<notin> set fixed_items
   \<and> transcript_pieces py_excerpt (cp ''I need to call John tomorrow. The weather is nice.'')
     = [cp ''I need to call John tomorrow'', cp ''The weather is nice'', []]
   \<and> cp ''I need to call john tomorrow.''
     = to_title py_excerpt (hd (cp ''I need to call John tomorrow''))
       @ lower_from py_excerpt 1 (cp ''I need to call John tomorrow'') @ cp ''.''"
proof -
  have a: "extract_action_items py_excerpt
             (cp ''I need to call John tomorrow. The weather is nice.'')
           = [cp ''I need to call john tomorrow.'']"
    by (simp add: eval_defs action_loop_closed)
  have f: "cp ''I need to call john tomorrow.'' \<notin> set fixed_items"
    by (simp add: fixed_items_def cp_def)
  have p: "transcript_pieces py_excerpt
             (cp ''I need to call John tomorrow. The weather is nice.'')
           = [cp ''I need to call John tomorrow'', cp ''The weather is nice'', []]"
    by (simp add: eval_defs transcript_pieces_def)
  have s: "cp ''I need to call john tomorrow.''
           = to_title py_excerpt (hd (cp ''I need to call John tomorrow''))
             @ lower_from py_excerpt 1 (cp ''I need to call John tomorrow'') @ cp ''.''"
    by (simp add: excerpt_defs cp_def)
  from rest_is_lower_case
         [of py_excerpt "cp ''I need to call John tomorrow. The weather is nice.''" "[]" "[]"]
  have "cp ''I need to call john tomorrow.'' \<in> set fixed_items
        \<or> (\<exists>y \<in> set (transcript_pieces py_excerpt
                      (cp ''I need to call John tomorrow. The weather is nice.'')).
              y \<noteq> []
              \<and> (cp ''I need to call john tomorrow.''
                   = to_title py_excerpt (hd y) @ lower_from py_excerpt 1 y
                 \<or> cp ''I need to call john tomorrow.''
                   = to_title py_excerpt (hd y) @ lower_from py_excerpt 1 y @ cp ''.''))"
    unfolding a by simp
  with a f p s show ?thesis by simp
qed

section \<open>The summary of a transcript with three or more sentences\<close>

text \<open>
  Claim C1, as stated: every transcript with three or more sentences is summarised as
  \<open>The audio discusses \<dots> and concludes with \<dots>.\<close> The length test comes first
  in the code, so a transcript of three sentences whose trimmed length is below 10,
  such as \<open>A. B. C.\<close>, gets the fixed short summary instead.
\<close>

theorem three_sentences_counterexample:
  "3 \<le> length (sentences_of py_excerpt (cp ''A. B. C.''))
   \<and> create_simple_summary py_excerpt (cp ''A. B. C.'')
     = Inr (cp ''Short audio clip with minimal content.'')
   \<and> create_simple_summary py_excerpt (cp ''A. B. C.'')
     \<noteq> Inr (cp ''The audio discusses a and concludes with c.'')"
  by (simp add: eval_defs)

text \<open>
  Claim C1, amended: for every transcript whose trimmed length is at least 10 and that
  has three or more sentences, the summary is \<open>The audio discusses\<close> followed by the first
  sentence in lower case, then \<open>and concludes with\<close> followed by the last sentence in
  lower case, then one period. With three or more sentences the last sentence always
  exists and is not empty, so the second part is always there; and the last sentence
  holds no \<open>.\<close>, \<open>!\<close> or \<open>?\<close>, so the period that closes the summary is the one the
  summariser appends.
\<close>

theorem long_transcript_summary:
  assumes "10 \<le> length (strip db transcript_text)"
    and "3 \<le> length (sentences_of db transcript_text)"
  shows "create_simple_summary db transcript_text =
           Inr (cp ''The audio discusses ''
                @ str_lower db (hd (sentences_of db transcript_text))
                @ cp '' and concludes with ''
                @ str_lower db (last (sentences_of db transcript_text))
                @ cp ''.'')
         \<and> last (sentences_of db transcript_text) \<noteq> []
         \<and> (\<forall>c \<in> set (last (sentences_of db transcript_text)). \<not> is_delim c)"
proof -
  let ?ss = "sentences_of db transcript_text"
  from assms(2) have ne: "?ss \<noteq> []" by auto
  then have "last ?ss \<in> set ?ss" by simp
  then have l: "last ?ss \<noteq> [] \<and> (\<forall>c \<in> set (last ?ss). \<not> is_delim c)"
    by (rule sentences_of_elem)
  from assms(1) have t: "transcript_text \<noteq> []"
    by (auto simp add: strip_def)
  from assms t l have "create_simple_summary db transcript_text =
      Inr (cp ''The audio discusses '' @ str_lower db (hd ?ss)
           @ cp '' and concludes with '' @ str_lower db (last ?ss) @ cp ''.'')"
    by (simp add: create_simple_summary_def Let_def py_index_first [OF ne]
          py_index_last [OF ne])
  with l show ?thesis by simp
qed

theorem long_transcript_summary_witness:
  "10 \<le> length (strip py_excerpt (cp ''Hello there. How are You? Fine THANKS!''))
   \<and> 3 \<le> length (sentences_of py_excerpt (cp ''Hello there. How are You? Fine THANKS!''))
   \<and> create_simple_summary py_excerpt (cp ''Hello there. How are You? Fine THANKS!'')
     = Inr (cp ''The audio discusses hello there and concludes with fine thanks.'')"
proof -
  have h1: "10 \<le> length (strip py_excerpt (cp ''Hello there. How are You? Fine THANKS!''))"
    by (simp add: eval_defs)
  have s: "sentences_of py_excerpt (cp ''Hello there. How are You? Fine THANKS!'')
           = [cp ''Hello there'', cp ''How are You'', cp ''Fine THANKS'']"
    by (simp add: eval_defs)
  have h2: "3 \<le> length (sentences_of py_excerpt
                           (cp ''Hello there. How are You? Fine THANKS!''))"
    by (simp add: s)
  have lw: "str_lower py_excerpt (cp ''Hello there'') = cp ''hello there''
            \<and> str_lower py_excerpt (cp ''Fine THANKS'') = cp ''fine thanks''"
    by (simp add: excerpt_defs str_lower_def cp_def)
  from long_transcript_summary [OF h1 h2]
  have "create_simple_summary py_excerpt (cp ''Hello there. How are You? Fine THANKS!'')
        = Inr (cp ''The audio discusses hello there and concludes with fine thanks.'')"
    unfolding s by (simp add: lw) (simp add: cp_def)
  with h1 h2 show ?thesis by simp
qed

section \<open>Duplicates among the key points\<close>



section \<open>Key points taken from the transcript\<close>

text \<open>
  Claim C5. When the summary gave fewer than three points and the transcript is not
  empty, the first three sentences of the transcript are to be considered, and those
  longer than 20 characters added: the comment in the code says so, and the summariser
  drops blank pieces before it counts sentences. The key point extractor cuts the list
  of split pieces to three before it trims them, so an empty or blank piece takes the
  place of a sentence. In the transcript below the piece before the leading dots is
  empty: its third sentence, 26 characters long, is never looked at, and two key points
  come out where the first three sentences give three.
\<close>

theorem first_three_sentences_failing_input:
  "length (summary_points py_excerpt []) < 3
   \<and> take 3 (sentences_of py_excerpt
        (cp ''...The quarterly numbers look good. Sales grew in every region. Costs stayed flat all year.''))
     = [cp ''The quarterly numbers look good'', cp ''Sales grew in every region'',
        cp ''Costs stayed flat all year'']
   \<and> 20 < length (cp ''Costs stayed flat all year'')
   \<and> extract_key_points py_excerpt []
        (cp ''...The quarterly numbers look good. Sales grew in every region. Costs stayed flat all year.'')
     = [cp ''The quarterly numbers look good.'', cp ''Sales grew in every region.'']"
  by (simp add: eval_defs transcript_loop_closed)

section \<open>The keyword \<open>meeting\<close> and the fallback items\<close>

text \<open>
  The fallback items are produced only when the keyword scan finds nothing. The word
  \<open>meeting\<close> is itself one of the action keywords, it holds no delimiter and no
  white space, and it is longer than four characters. Where lower case is taken
  character by character, as in the excerpt of the database, a transcript whose
  lower-case form contains the word has a piece that contains it after trimming, and that
  piece is kept by the scan: the scan of such a transcript is never empty.
\<close>

lemma starts_with_iff: "starts_with k s \<longleftrightarrow> (\<exists>b. s = k @ b)"
  by (induction k s rule: starts_with.induct) auto

lemma str_in_iff: "str_in k s \<longleftrightarrow> (\<exists>a b. s = a @ k @ b)"
proof (induction s)
  case Nil
  show ?case by auto
next
  case (Cons c cs)
  show ?case
  proof
    assume "str_in k (c # cs)"
    then consider "starts_with k (c # cs)" | "str_in k cs" by auto
    then show "\<exists>a b. c # cs = a @ k @ b"
    proof cases
      case 1
      then obtain b where "c # cs = k @ b" using starts_with_iff by blast
      then have "c # cs = [] @ k @ b" by simp
      then show ?thesis by blast
    next
      case 2
      then obtain a b where "cs = a @ k @ b" using Cons.IH by blast
      then have "c # cs = (c # a) @ k @ b" by simp
      then show ?thesis by blast
    qed
  next
    assume "\<exists>a b. c # cs = a @ k @ b"
    then obtain a b where ab: "c # cs = a @ k @ b" by blast
    show "str_in k (c # cs)"
    proof (cases a)
      case Nil
      with ab have "starts_with k (c # cs)" using starts_with_iff by auto
      then show ?thesis by simp
    next
      case (Cons x a1)
      with ab have "cs = a1 @ k @ b" by simp
      then have "str_in k cs" using Cons.IH by blast
      then show ?thesis by simp
    qed
  qed
qed

lemma re_split_prefix:
  assumes "\<forall>c \<in> set k. \<not> d c"
  shows "re_split d (k @ b) = (k @ hd (re_split d b)) # tl (re_split d b)"
  using assms
proof (induction k)
  case Nil
  show ?case using re_split_nonempty [of d b] by simp
next
  case (Cons c k)
  then show ?case by simp
qed

lemma dropWhile_keeps:
  assumes "k \<noteq> []" and "\<not> P (hd k)"
  shows "\<exists>u. dropWhile P (a @ k @ b) = u @ k @ b"
proof (cases "\<forall>x \<in> set a. P x")
  case True
  with assms have "dropWhile P (a @ k @ b) = [] @ k @ b"
    by (cases k) (simp_all add: dropWhile_append)
  then show ?thesis by blast
next
  case False
  then have "dropWhile P (a @ k @ b) = dropWhile P a @ k @ b"
    by (auto simp add: dropWhile_append)
  then show ?thesis by blast
qed

lemma re_split_keeps:
  assumes "k \<noteq> []"
  shows "\<forall>c \<in> set k. \<not> d c \<Longrightarrow> s = a @ k @ b \<Longrightarrow>
         \<exists>f \<in> set (re_split d s). \<exists>u v. f = u @ k @ v"
proof (induction d s arbitrary: a rule: re_split.induct)
  case (1 d)
  with assms show ?case by simp
next
  case (2 d c cs)
  note nd = \<open>\<forall>c \<in> set k. \<not> d c\<close>
  note eq = \<open>c # cs = a @ k @ b\<close>
  from assms nd have hk: "\<not> d (hd k)" by (cases k) auto
  show ?case
  proof (cases "d c")
    case True
    have "a \<noteq> []"
    proof
      assume "a = []"
      with eq assms have "hd k = c" by (cases k) auto
      with True hk show False by simp
    qed
    with eq obtain a1 where a1: "a = c # a1" and cs: "cs = a1 @ k @ b"
      by (cases a) auto
    obtain u where "dropWhile d cs = u @ k @ b"
      using dropWhile_keeps [where k = k and P = d and a = a1 and b = b] assms hk cs by blast
    then obtain f where "f \<in> set (re_split d (dropWhile d cs))" and "\<exists>u v. f = u @ k @ v"
      using 2(1) [OF True nd] by blast
    with True show ?thesis by auto
  next
    case False
    obtain f0 fs where r: "re_split d cs = f0 # fs"
      using re_split_nonempty [of d cs] by (cases "re_split d cs") auto
    show ?thesis
    proof (cases a)
      case Nil
      with eq assms obtain k1 where k: "k = c # k1" and cs: "cs = k1 @ b"
        by (cases k) auto
      from nd k have "\<forall>x \<in> set k1. \<not> d x" by simp
      then have "re_split d cs = (k1 @ hd (re_split d b)) # tl (re_split d b)"
        unfolding cs by (rule re_split_prefix)
      with r have "c # f0 = [] @ k @ hd (re_split d b)" using k by simp
      then have "\<exists>u v. c # f0 = u @ k @ v" by blast
      with False r show ?thesis by simp
    next
      case (Cons x a1)
      with eq have cs: "cs = a1 @ k @ b" by simp
      then obtain f where f: "f \<in> set (re_split d cs)" and "\<exists>u v. f = u @ k @ v"
        using 2(2) [OF False nd] by blast
      then obtain u v where uv: "f = u @ k @ v" by blast
      show ?thesis
      proof (cases "f = f0")
        case True
        with uv have "c # f0 = (c # u) @ k @ v" by simp
        then have "\<exists>u v. c # f0 = u @ k @ v" by blast
        with False r show ?thesis by simp
      next
        case nf: False
        with f r have "f \<in> set fs" by simp
        then have "f \<in> set ((c # f0) # fs)" by simp
        moreover have "\<exists>u v. f = u @ k @ v" using uv by blast
        ultimately have "\<exists>f \<in> set ((c # f0) # fs). \<exists>u v. f = u @ k @ v" by blast
        with False r show ?thesis by simp
      qed
    qed
  qed
qed

lemma strip_keeps:
  assumes "k \<noteq> []" and "\<not> isspace db (hd k)" and "\<not> isspace db (last k)"
  shows "\<exists>u v. strip db (a @ k @ b) = u @ k @ v"
proof -
  obtain u where u: "dropWhile (isspace db) (a @ k @ b) = u @ k @ b"
    using dropWhile_keeps [where k = k and P = "isspace db" and a = a and b = b] assms
    by blast
  have rk: "rev k \<noteq> []" "\<not> isspace db (hd (rev k))"
    using assms by (simp_all add: hd_rev)
  obtain w where w: "dropWhile (isspace db) (rev b @ rev k @ rev u) = w @ rev k @ rev u"
    using dropWhile_keeps
            [where k = "rev k" and P = "isspace db" and a = "rev b" and b = "rev u"] rk
    by blast
  have "strip db (a @ k @ b) = u @ k @ rev w"
    by (simp add: strip_def u w)
  then show ?thesis by blast
qed

lemma map_split:
  assumes "map g t = a @ m @ b"
  shows "\<exists>a' k b'. t = a' @ k @ b' \<and> map g k = m"
proof -
  let ?k = "take (length m) (drop (length a) t)"
  have "map g ?k = take (length m) (drop (length a) (map g t))"
    by (simp add: take_map drop_map)
  also have "\<dots> = m" by (simp add: assms)
  finally have l: "map g ?k = m" .
  have "?k @ drop (length m) (drop (length a) t) = drop (length a) t"
    by (rule append_take_drop_id)
  then have "take (length a) t @ ?k @ drop (length m) (drop (length a) t) = t"
    by (simp only: append_take_drop_id)
  then have "t = take (length a) t @ ?k @ drop (length m) (drop (length a) t)"
    by (rule sym)
  with l show ?thesis by blast
qed

lemma member_map_nonempty: "x \<in> set ys \<Longrightarrow> map g ys \<noteq> []"
  by auto

lemma excerpt_str_lower: "str_lower py_excerpt s = map excerpt_lower_cp s"
  by (simp add: str_lower_def py_excerpt_def)

lemma excerpt_isspace_sel: "isspace py_excerpt = excerpt_isspace"
  by (simp add: py_excerpt_def)

lemma meeting_chars:
  assumes "map excerpt_lower_cp k = cp ''meeting''" and "c \<in> set k"
  shows "\<not> is_delim c \<and> \<not> excerpt_isspace c"
proof -
  from assms(2) have "excerpt_lower_cp c \<in> set (map excerpt_lower_cp k)" by simp
  then have "excerpt_lower_cp c \<in> set (cp ''meeting'')" by (simp only: assms(1))
  then show ?thesis
    by (auto simp add: excerpt_lower_cp_def cp_def is_delim_def excerpt_isspace_def
          split: if_splits)
qed

text \<open>
  With the excerpt of the database, every transcript that contains \<open>meeting\<close>, in any
  mix of cases, has at least one keyword-matched action item.
\<close>

lemma meeting_always_matched:
  assumes "str_in (cp ''meeting'') (str_lower py_excerpt transcript_text)"
  shows "keyword_scan py_excerpt transcript_text \<noteq> []"
proof -
  let ?m = "cp ''meeting''"
  from assms have "\<exists>a b. str_lower py_excerpt transcript_text = a @ ?m @ b"
    by (simp only: str_in_iff)
  then obtain a b where "str_lower py_excerpt transcript_text = a @ ?m @ b"
    by blast
  then have ab: "map excerpt_lower_cp transcript_text = a @ ?m @ b"
    by (simp only: excerpt_str_lower)
  obtain a' k b' where t: "transcript_text = a' @ k @ b'"
    and k: "map excerpt_lower_cp k = ?m"
    using map_split [OF ab] by blast
  from k have "length (map excerpt_lower_cp k) = length ?m" by (simp only:)
  then have len: "length k = 7" by (simp add: cp_def)
  then have kne: "k \<noteq> []" by auto
  have nd: "\<forall>c \<in> set k. \<not> is_delim c" using meeting_chars [OF k] by blast
  from kne have "hd k \<in> set k" and "last k \<in> set k" by simp_all
  then have "\<not> excerpt_isspace (hd k)" and "\<not> excerpt_isspace (last k)"
    using meeting_chars [OF k] by blast+
  then have sp: "\<not> isspace py_excerpt (hd k)" "\<not> isspace py_excerpt (last k)"
    by (simp_all add: excerpt_isspace_sel)
  obtain f u v where f: "f \<in> set (re_split is_delim transcript_text)" and fu: "f = u @ k @ v"
    using re_split_keeps [OF kne nd t] by blast
  obtain u' v' where s: "strip py_excerpt f = u' @ k @ v'"
    using strip_keeps [OF kne sp] fu by blast
  have "str_lower py_excerpt (strip py_excerpt f)
        = map excerpt_lower_cp u' @ map excerpt_lower_cp k @ map excerpt_lower_cp v'"
    by (simp add: s excerpt_str_lower)
  then have "str_lower py_excerpt (strip py_excerpt f)
        = map excerpt_lower_cp u' @ ?m @ map excerpt_lower_cp v'"
    by (simp only: k)
  then have m: "str_in ?m (str_lower py_excerpt (strip py_excerpt f))"
    using str_in_iff by blast
  have l: "\<not> length (strip py_excerpt f) < 5" by (simp add: s len)
  have "?m \<in> set action_keywords"
    unfolding action_keywords_def by (simp only: set_map) (rule imageI, simp)
  with m have "list_ex (\<lambda>keyword. str_in keyword (str_lower py_excerpt (strip py_excerpt f)))
                 action_keywords"
    unfolding list_ex_iff by blast
  with l f have "strip py_excerpt f \<in> set (filter (\<lambda>x. \<not> length x < 5 \<and>
        list_ex (\<lambda>keyword. str_in keyword (str_lower py_excerpt x)) action_keywords)
        (map (strip py_excerpt) (re_split is_delim transcript_text)))"
    by simp
  then have "map (clean_sentence py_excerpt) (filter (\<lambda>x. \<not> length x < 5 \<and>
        list_ex (\<lambda>keyword. str_in keyword (str_lower py_excerpt x)) action_keywords)
        (map (strip py_excerpt) (re_split is_delim transcript_text))) \<noteq> []"
    by (rule member_map_nonempty)
  then show ?thesis
    unfolding keyword_scan_def action_loop_closed by simp
qed

text \<open>
  When the scan finds nothing, the fallback item is chosen by the words of the
  transcript, \<open>meeting\<close> first. By the lemma above the conditions of this statement
  never hold together with the excerpt of the database, so there it describes a branch of
  the code that no transcript reaches.
\<close>

lemma meeting_fallback_branch:
  assumes "transcript_text \<noteq> []"
    and "str_in (cp ''meeting'') (str_lower db transcript_text)"
    and "keyword_scan db transcript_text = []"
  shows "extract_action_items db transcript_text = [cp ''Follow up on meeting discussion.'']"
  using assms by (simp add: extract_action_items_def)

end
